theory Spec2Isabelle
  imports Main "HOL-Library.Word"
begin

section \<open>The rate limiter (class RateLimit)\<close>

text \<open>
  \<^verbatim>\<open>static const int N_TIME_SLICES = 1000;\<close> and
  \<^verbatim>\<open>static const int HISTORY_LENGTH = N_TIME_SLICES + 1;\<close>
\<close>

definition N_TIME_SLICES :: nat where
  "N_TIME_SLICES = 1000"

definition HISTORY_LENGTH :: nat where
  "HISTORY_LENGTH = N_TIME_SLICES + 1"

text \<open>
  The fields of the class. \<^verbatim>\<open>mLastUpdateSlice\<close> is a \<^verbatim>\<open>uint64_t\<close> and is a
  64-bit word, whose subtraction wraps around. \<^verbatim>\<open>mMaxRPS\<close>, \<^verbatim>\<open>mCurrentRPS\<close> and the
  entries of \<^verbatim>\<open>mRequestCounters\<close> are C++ \<^verbatim>\<open>int\<close>s; they are mathematical
  integers here, and lemma \<open>reachable_no_overflow\<close> below shows that in every state the
  object can reach they stay between 0 and the configured maximum, so that no step
  overflows. The mutex is not a field of the model: every call holds it from its first
  to its last statement, so calls are atomic steps, and the value the clock returns
  inside the critical section is the argument \<open>current_slice\<close> of the step.
\<close>

record RateLimit =
  mLastUpdateSlice :: "64 word"
  mMaxRPS :: int
  mRequestCounters :: "int list"
  mCurrentRPS :: int

text \<open>
  The constructor; \<open>now\<close> is what \<^verbatim>\<open>get_time_slices_since_epoch()\<close> returns at
  construction. \<^verbatim>\<open>mRequestCounters()\<close> and \<^verbatim>\<open>mCurrentRPS()\<close> value-initialise
  to zeros.
\<close>

definition RateLimit_ctor :: "64 word \<Rightarrow> int \<Rightarrow> RateLimit" where
  "RateLimit_ctor now maxRPS =
     \<lparr>mLastUpdateSlice = now, mMaxRPS = maxRPS,
      mRequestCounters = replicate HISTORY_LENGTH 0, mCurrentRPS = 0\<rparr>"

text \<open>
  The loop of lines 63 to 66:
  \<^verbatim>\<open>for (int i = (from_index + 1) % HISTORY_LENGTH; i != (to_index + 1) % HISTORY_LENGTH;
       i = (i + 1) % HISTORY_LENGTH) { mCurrentRPS -= mRequestCounters[i]; mRequestCounters[i] = 0; }\<close>
  as a function of the loop variable, the bound, and the two fields the body changes.
  Both \<open>i\<close> and \<open>stop\<close> are remainders modulo \<open>HISTORY_LENGTH\<close> in the source; the two
  extra disjuncts of the exit test are never true there (lemma \<open>clear_skipped_in_range\<close>)
  and make the recursion total on all naturals.
\<close>

function clear_skipped :: "nat \<Rightarrow> nat \<Rightarrow> int \<times> int list \<Rightarrow> int \<times> int list" where
  "clear_skipped i stop (rps, cs) =
     (if i = stop \<or> HISTORY_LENGTH \<le> i \<or> HISTORY_LENGTH \<le> stop then (rps, cs)
      else clear_skipped ((i + 1) mod HISTORY_LENGTH) stop (rps - cs ! i, cs[i := 0]))"
  by pat_completeness auto
termination
proof (relation "measure (\<lambda>(i, stop, _). (stop + HISTORY_LENGTH - i) mod HISTORY_LENGTH)")
  show "wf (measure (\<lambda>(i, stop, _). (stop + HISTORY_LENGTH - i) mod HISTORY_LENGTH))"
    by simp
next
  fix i stop :: nat and rps :: int and cs :: "int list"
  assume a: "\<not> (i = stop \<or> HISTORY_LENGTH \<le> i \<or> HISTORY_LENGTH \<le> stop)"
  let ?H = HISTORY_LENGTH
  have lt: "i < ?H" "stop < ?H" "i \<noteq> stop" using a by auto
  have "(stop + ?H - (i + 1) mod ?H) mod ?H < (stop + ?H - i) mod ?H"
  proof (cases "i + 1 = ?H")
    case True
    then have "(stop + ?H - (i + 1) mod ?H) mod ?H = stop" using lt by simp
    moreover have "(stop + ?H - i) mod ?H = stop + 1" using True lt by simp
    ultimately show ?thesis by simp
  next
    case False
    then have s: "(i + 1) mod ?H = i + 1" using lt by simp
    show ?thesis
    proof (cases "i < stop")
      case True
      then have "(stop + ?H - (i + 1)) mod ?H = stop - (i + 1)"
        using lt by (simp add: mod_if)
      moreover have "(stop + ?H - i) mod ?H = stop - i"
        using True lt by (simp add: mod_if)
      ultimately show ?thesis using True s by simp
    next
      case False
      then have "stop < i" using lt by simp
      then have "(stop + ?H - (i + 1)) mod ?H = stop + ?H - (i + 1)"
        and "(stop + ?H - i) mod ?H = stop + ?H - i"
        using lt by simp_all
      then show ?thesis using s lt \<open>stop < i\<close> by simp
    qed
  qed
  then show "(((i + 1) mod ?H, stop, rps - cs ! i, cs[i := 0]), (i, stop, rps, cs))
      \<in> measure (\<lambda>(i, stop, _). (stop + ?H - i) mod ?H)"
    by simp
qed

declare clear_skipped.simps [simp del]

text \<open>
  Lines 55 to 73 of \<^verbatim>\<open>tryAquireRequestTicket\<close>: the counters are brought up to date
  with the time that has passed since the previous call. The comparison
  \<^verbatim>\<open>current_slice - mLastUpdateSlice < HISTORY_LENGTH\<close> is between \<^verbatim>\<open>uint64_t\<close>s (the
  \<^verbatim>\<open>int\<close> constant is converted), so the subtraction wraps and the order is unsigned.
\<close>

definition reconcile :: "64 word \<Rightarrow> RateLimit \<Rightarrow> RateLimit" where
  "reconcile current_slice s =
     (let to_index = unat (current_slice mod of_nat HISTORY_LENGTH);
          s1 =
            (if current_slice = mLastUpdateSlice s then s
             else if current_slice - mLastUpdateSlice s < of_nat HISTORY_LENGTH then
               (let from_index = unat (mLastUpdateSlice s mod of_nat HISTORY_LENGTH);
                    (rps, cs) = clear_skipped ((from_index + 1) mod HISTORY_LENGTH)
                                  ((to_index + 1) mod HISTORY_LENGTH)
                                  (mCurrentRPS s, mRequestCounters s)
                in s\<lparr>mRequestCounters := cs, mCurrentRPS := rps\<rparr>)
             else s\<lparr>mRequestCounters := replicate (length (mRequestCounters s)) 0,
                    mCurrentRPS := 0\<rparr>)
      in s1\<lparr>mLastUpdateSlice := current_slice\<rparr>)"

text \<open>
  \<^verbatim>\<open>bool tryAquireRequestTicket()\<close>: the result and the state it leaves.
\<close>

definition tryAquireRequestTicket :: "64 word \<Rightarrow> RateLimit \<Rightarrow> bool \<times> RateLimit" where
  "tryAquireRequestTicket current_slice s =
     (let to_index = unat (current_slice mod of_nat HISTORY_LENGTH);
          s1 = reconcile current_slice s
      in if mCurrentRPS s1 < mMaxRPS s1 then
           (True, s1\<lparr>mCurrentRPS := mCurrentRPS s1 + 1,
                     mRequestCounters := (mRequestCounters s1)
                        [to_index := mRequestCounters s1 ! to_index + 1]\<rparr>)
         else (False, s1))"

text \<open>
  A sequence of calls, each at the slice the clock shows when the call holds the lock;
  the results in order and the final state.
\<close>

fun run :: "RateLimit \<Rightarrow> 64 word list \<Rightarrow> bool list \<times> RateLimit" where
  "run s [] = ([], s)"
| "run s (t # ts) =
     (let (r, s1) = tryAquireRequestTicket t s; (rs, s2) = run s1 ts in (r # rs, s2))"

text \<open>
  The slices at which the calls of a run were admitted: \<open>ts\<close> are the slices of the
  calls and \<open>rs\<close> their results.
\<close>

definition admitted :: "64 word list \<Rightarrow> bool list \<Rightarrow> nat list" where
  "admitted ts rs = map (unat \<circ> fst) (filter snd (zip ts rs))"

text \<open>
  A reference model used in the proofs: it keeps the list of the slices of all admissions
  so far and admits a call at slice \<open>t\<close> when fewer than \<open>maxRPS\<close> of them lie in the
  slices \<open>t - N_TIME_SLICES, \<dots>, t\<close>.
\<close>

definition in_window :: "nat \<Rightarrow> nat \<Rightarrow> bool" where
  "in_window t u \<longleftrightarrow> t \<le> u + N_TIME_SLICES"

fun window_model :: "int \<Rightarrow> nat list \<Rightarrow> nat list \<Rightarrow> bool list" where
  "window_model maxRPS log [] = []"
| "window_model maxRPS log (t # ts) =
     (let r = (int (length (filter (in_window t) log)) < maxRPS)
      in r # window_model maxRPS (if r then t # log else log) ts)"

text \<open>The list of admissions that the reference model has at the end of the calls \<open>ts\<close>.\<close>

fun window_log :: "int \<Rightarrow> nat list \<Rightarrow> nat list \<Rightarrow> nat list" where
  "window_log maxRPS log [] = log"
| "window_log maxRPS log (t # ts) =
     window_log maxRPS
       (if int (length (filter (in_window t) log)) < maxRPS then t # log else log) ts"

text \<open>
  The invariant of the counters, on the pair of the total and the array that the loop
  works on, and of the whole object: the array has its \<open>HISTORY_LENGTH\<close> entries, none
  of them negative, the total is their sum, and it does not pass the maximum (or 0 when
  the maximum is negative).
\<close>

definition counters_ok :: "int \<times> int list \<Rightarrow> bool" where
  "counters_ok p \<longleftrightarrow>
     length (snd p) = HISTORY_LENGTH \<and> sum_list (snd p) = fst p \<and> (\<forall>x\<in>set (snd p). 0 \<le> x)"

definition state_ok :: "RateLimit \<Rightarrow> bool" where
  "state_ok s \<longleftrightarrow>
     counters_ok (mCurrentRPS s, mRequestCounters s) \<and> mCurrentRPS s \<le> max 0 (mMaxRPS s)"

text \<open>
  The relation between a state of the object and the list \<open>log\<close> of the slices of the
  admissions so far, used to show that the object computes what the reference model
  computes: counter \<open>i\<close> holds the number of admissions in the window of the last call
  whose slice has remainder \<open>i\<close>, and no admission is later than the last call.
\<close>

definition tracks :: "RateLimit \<Rightarrow> nat list \<Rightarrow> bool" where
  "tracks s log \<longleftrightarrow>
     state_ok s
     \<and> (\<forall>i<HISTORY_LENGTH. mRequestCounters s ! i =
           int (length (filter (\<lambda>u. in_window (unat (mLastUpdateSlice s)) u
                                   \<and> u mod HISTORY_LENGTH = i) log)))
     \<and> (\<forall>u\<in>set log. u \<le> unat (mLastUpdateSlice s))"

section \<open>The call recorder (class API)\<close>

text \<open>
  The two deques of the recorder. The reference to the limiter and the start date are
  not fields of the model: the result of the limiter and the bucket index computed from
  the clock are the arguments of the step.
\<close>

record API =
  mSuccessfullCalls :: "int list"
  mRateLimitedCalls :: "int list"

definition API_ctor :: API where
  "API_ctor = \<lparr>mSuccessfullCalls = [], mRateLimitedCalls = []\<rparr>"

text \<open>\<^verbatim>\<open>std::deque<int>::resize(n)\<close>: cut to \<open>n\<close> elements or filled up with zeros.\<close>

definition resize :: "nat \<Rightarrow> int list \<Rightarrow> int list" where
  "resize n xs = take n xs @ replicate (n - length xs) 0"

text \<open>
  The critical section of \<^verbatim>\<open>API::call\<close> (lines 155 to 165). \<open>time_index\<close> is the
  \<^verbatim>\<open>size_t\<close> that the cast of a \<^verbatim>\<open>double\<close> gives; every such value is below
  \<open>2 ^ 64 - 1\<close>, so \<^verbatim>\<open>time_index + 1\<close> does not wrap and the index is a natural number.
\<close>

definition record_call :: "bool \<Rightarrow> nat \<Rightarrow> API \<Rightarrow> API" where
  "record_call called time_index a =
     (let sc = (if time_index \<ge> length (mSuccessfullCalls a)
                then resize (time_index + 1) (mSuccessfullCalls a) else mSuccessfullCalls a);
          rc = (if time_index \<ge> length (mRateLimitedCalls a)
                then resize (time_index + 1) (mRateLimitedCalls a) else mRateLimitedCalls a)
      in if called then \<lparr>mSuccessfullCalls = sc[time_index := sc ! time_index + 1],
                          mRateLimitedCalls = rc\<rparr>
         else \<lparr>mSuccessfullCalls = sc,
               mRateLimitedCalls = rc[time_index := rc ! time_index + 1]\<rparr>)"

text \<open>
  The deques change in the critical sections only, and the lock lets one thread at a
  time execute its critical section. So whatever the threads do, the deques are what a
  sequence of critical sections leaves, each with the result and the bucket index of its
  call.
\<close>

fun record_calls :: "API \<Rightarrow> (bool \<times> nat) list \<Rightarrow> API" where
  "record_calls a [] = a"
| "record_calls a ((called, time_index) # es) =
     record_calls (record_call called time_index a) es"

text \<open>
  \<^verbatim>\<open>void call()\<close>: the limiter is asked at slice \<open>current_slice\<close>, and the answer is
  recorded in bucket \<open>time_index\<close>.
\<close>

definition call :: "64 word \<Rightarrow> nat \<Rightarrow> RateLimit \<times> API \<Rightarrow> RateLimit \<times> API" where
  "call current_slice time_index p =
     (let (called, rl) = tryAquireRequestTicket current_slice (fst p)
      in (rl, record_call called time_index (snd p)))"

fun calls :: "RateLimit \<times> API \<Rightarrow> (64 word \<times> nat) list \<Rightarrow> RateLimit \<times> API" where
  "calls p [] = p"
| "calls p ((t, k) # es) = calls (call t k p) es"

text \<open>
  The last column of a row of \<^verbatim>\<open>printStat\<close>:
  \<^verbatim>\<open>std::accumulate(mSuccessfullCalls.begin() + std::max<size_t>(0, i - 9),
                  mSuccessfullCalls.begin() + i + 1, 0)\<close>.
  The row index \<open>i\<close> is a \<^verbatim>\<open>size_t\<close>, so \<^verbatim>\<open>i - 9\<close> is an unsigned subtraction that
  wraps, and the maximum is taken of unsigned values.
\<close>

definition rolling_first :: "64 word \<Rightarrow> 64 word" where
  "rolling_first i = max 0 (i - 9)"

text \<open>
  \<^verbatim>\<open>begin() + n\<close> takes \<open>n\<close> as the signed \<^verbatim>\<open>difference_type\<close>. The sum is defined
  when the two iterators delimit a range inside the deque; otherwise the behaviour of
  \<^verbatim>\<open>std::accumulate\<close> is undefined, which is \<open>None\<close> here.
\<close>

definition accumulate_range :: "int list \<Rightarrow> int \<Rightarrow> int \<Rightarrow> int option" where
  "accumulate_range xs lo hi =
     (if 0 \<le> lo \<and> lo \<le> hi \<and> hi \<le> int (length xs)
      then Some (sum_list (take (nat (hi - lo)) (drop (nat lo) xs)))
      else None)"

definition rps_for_last_second :: "API \<Rightarrow> 64 word \<Rightarrow> int option" where
  "rps_for_last_second a i =
     accumulate_range (mSuccessfullCalls a) (sint (rolling_first i)) (sint i + 1)"

text \<open>
  The rows \<^verbatim>\<open>printStat\<close> prints, one for each index of \<^verbatim>\<open>mSuccessfullCalls\<close>: the
  index, the two counts and the last column. A read of \<^verbatim>\<open>mRateLimitedCalls[i]\<close>
  beyond its size is \<open>None\<close>.
\<close>

definition printStat_row :: "API \<Rightarrow> nat \<Rightarrow> (nat \<times> int \<times> int option \<times> int option)" where
  "printStat_row a i =
     (i, mSuccessfullCalls a ! i,
      (if i < length (mRateLimitedCalls a) then Some (mRateLimitedCalls a ! i) else None),
      rps_for_last_second a (of_nat i))"

definition printStat :: "API \<Rightarrow> (nat \<times> int \<times> int option \<times> int option) list" where
  "printStat a = map (printStat_row a) [0..<length (mSuccessfullCalls a)]"

section \<open>Properties of the rate limiter\<close>

lemma HISTORY_LENGTH_eq: "HISTORY_LENGTH = 1001"
  by (simp add: HISTORY_LENGTH_def N_TIME_SLICES_def)

lemma clear_skipped_length:
  "length (snd (clear_skipped i stop p)) = length (snd p)"
proof (induction i stop p rule: clear_skipped.induct)
  case (1 i stop rps cs)
  then show ?case by (subst clear_skipped.simps) auto
qed

lemma clear_skipped_zeros:
  "length (snd p) = HISTORY_LENGTH \<Longrightarrow> \<forall>x\<in>set (snd p). x = 0 \<Longrightarrow>
   clear_skipped i stop p = p"
proof (induction i stop p rule: clear_skipped.induct)
  case (1 i stop rps cs)
  show ?case
  proof (cases "i = stop \<or> HISTORY_LENGTH \<le> i \<or> HISTORY_LENGTH \<le> stop")
    case True
    then show ?thesis by (subst clear_skipped.simps) simp
  next
    case False
    then have i: "i < length cs" using "1.prems" by simp
    then have z: "cs ! i = 0" using "1.prems" by simp
    then have u: "cs[i := 0] = cs" using i by (metis list_update_id)
    have "clear_skipped i stop (rps, cs) =
          clear_skipped ((i + 1) mod HISTORY_LENGTH) stop (rps - cs ! i, cs[i := 0])"
      using False by (subst clear_skipped.simps) simp
    also have "(rps - cs ! i, cs[i := 0]) = (rps, cs)" using z u by simp
    also have "clear_skipped ((i + 1) mod HISTORY_LENGTH) stop (rps, cs) = (rps, cs)"
      using "1.IH"[OF False] "1.prems" z u by simp
    finally show ?thesis .
  qed
qed

lemma reconcile_zeros:
  assumes "mRequestCounters s = replicate HISTORY_LENGTH 0" "mCurrentRPS s = 0"
  shows "reconcile t s = s\<lparr>mLastUpdateSlice := t\<rparr>"
  using assms clear_skipped_zeros [of "(0, replicate HISTORY_LENGTH 0)"]
  by (simp add: reconcile_def Let_def)

lemma reconcile_same: "reconcile (mLastUpdateSlice s) s = s"
  by (simp add: reconcile_def)

lemma tryAquire_reconcile:
  "tryAquireRequestTicket t (reconcile t s) = tryAquireRequestTicket t s"
proof -
  have "mLastUpdateSlice (reconcile t s) = t" by (simp add: reconcile_def Let_def)
  then have "reconcile t (reconcile t s) = reconcile t s"
    using reconcile_same [of "reconcile t s"] by simp
  then show ?thesis by (simp add: tryAquireRequestTicket_def)
qed

lemma tryAquire_zeros:
  assumes "mRequestCounters s = replicate HISTORY_LENGTH 0" "mCurrentRPS s = 0"
  shows "tryAquireRequestTicket t s =
    (if 0 < mMaxRPS s
     then (True, s\<lparr>mLastUpdateSlice := t, mCurrentRPS := 1,
            mRequestCounters := (replicate HISTORY_LENGTH 0)
              [unat (t mod of_nat HISTORY_LENGTH) := 1]\<rparr>)
     else (False, s\<lparr>mLastUpdateSlice := t\<rparr>))"
proof -
  have "unat (t mod of_nat HISTORY_LENGTH) < HISTORY_LENGTH"
    by (simp add: HISTORY_LENGTH_eq unat_mod)
  then show ?thesis
    using assms by (simp add: tryAquireRequestTicket_def reconcile_zeros Let_def)
qed

lemma tryAquire_fresh:
  "tryAquireRequestTicket t (RateLimit_ctor t' m) = tryAquireRequestTicket t (RateLimit_ctor t m)"
  by (simp add: tryAquire_zeros RateLimit_ctor_def)

subsection \<open>A limit of zero or less\<close>

lemma run_denies:
  assumes "mRequestCounters s = replicate HISTORY_LENGTH 0" "mCurrentRPS s = 0"
    and "mMaxRPS s \<le> 0"
  shows "run s ts = (replicate (length ts) False,
                     s\<lparr>mLastUpdateSlice := last (mLastUpdateSlice s # ts)\<rparr>)"
  using assms
proof (induction ts arbitrary: s)
  case Nil
  then show ?case by simp
next
  case (Cons t ts)
  have "tryAquireRequestTicket t s = (False, s\<lparr>mLastUpdateSlice := t\<rparr>)"
    using Cons.prems by (simp add: tryAquire_zeros)
  moreover have "run (s\<lparr>mLastUpdateSlice := t\<rparr>) ts =
      (replicate (length ts) False,
       s\<lparr>mLastUpdateSlice := last (t # ts)\<rparr>)"
    using Cons.IH [of "s\<lparr>mLastUpdateSlice := t\<rparr>"] Cons.prems by simp
  ultimately show ?case by simp
qed

text \<open>
  Claim C6. A limiter constructed with a maximum of 0 answers \<open>false\<close> to every call:
  for any construction time \<open>t0\<close> and any list \<open>ts\<close> of call times (any number of calls,
  any time between them, the clock values not even required to increase), all results
  of the run are \<open>False\<close>.
\<close>

theorem zero_limit_always_denies:
  "fst (run (RateLimit_ctor t0 0) ts) = replicate (length ts) False"
  using run_denies [of "RateLimit_ctor t0 0" ts]
  by (simp add: RateLimit_ctor_def)

theorem zero_limit_always_denies_witness:
  "fst (run (RateLimit_ctor 7 0) [7, 8, 8, 2500]) = [False, False, False, False]"
  using zero_limit_always_denies [of 7 "[7, 8, 8, 2500]"] by (simp del: run.simps)

text \<open>
  Claim C9. The constructor takes any integer. With a negative maximum every call
  answers \<open>false\<close>, exactly as with the maximum 0: the results are the same, and the
  final states differ in the field \<open>mMaxRPS\<close> only.
\<close>

theorem negative_limit_always_denies:
  assumes "maxRPS < 0"
  shows "fst (run (RateLimit_ctor t0 maxRPS) ts) = replicate (length ts) False
       \<and> fst (run (RateLimit_ctor t0 maxRPS) ts) = fst (run (RateLimit_ctor t0 0) ts)
       \<and> snd (run (RateLimit_ctor t0 maxRPS) ts)
           = (snd (run (RateLimit_ctor t0 0) ts))\<lparr>mMaxRPS := maxRPS\<rparr>"
  using assms run_denies [of "RateLimit_ctor t0 maxRPS" ts]
    run_denies [of "RateLimit_ctor t0 0" ts]
  by (simp add: RateLimit_ctor_def)

theorem negative_limit_always_denies_witness:
  "(-3::int) < 0
   \<and> fst (run (RateLimit_ctor 7 (-3)) [7, 9, 4000]) = [False, False, False]
   \<and> fst (run (RateLimit_ctor 7 (-3)) [7, 9, 4000]) = fst (run (RateLimit_ctor 7 0) [7, 9, 4000])"
  using negative_limit_always_denies [of "-3" 7 "[7, 9, 4000]"]
  by (clarsimp simp del: run.simps)

subsection \<open>A full window without calls\<close>

lemma reconcile_idle:
  assumes "length (mRequestCounters s) = HISTORY_LENGTH"
    and "mLastUpdateSlice s \<le> t"
    and "HISTORY_LENGTH \<le> unat t - unat (mLastUpdateSlice s)"
  shows "reconcile t s = RateLimit_ctor t (mMaxRPS s)"
proof -
  have ne: "t \<noteq> mLastUpdateSlice s" using assms(3) by (auto simp: HISTORY_LENGTH_eq)
  have "unat (t - mLastUpdateSlice s) = unat t - unat (mLastUpdateSlice s)"
    using assms(2) by (simp add: unat_sub)
  then have "\<not> t - mLastUpdateSlice s < of_nat HISTORY_LENGTH"
    using assms(3) by (simp add: HISTORY_LENGTH_eq word_less_nat_alt)
  then show ?thesis
    using ne assms(1) by (simp add: reconcile_def RateLimit_ctor_def Let_def)
qed

text \<open>
  Claim C7. Let the limiter be in any state \<open>s\<close> (with its array of \<open>HISTORY_LENGTH\<close>
  counters), and let the next call come at a slice \<open>t\<close> that is at least
  \<open>HISTORY_LENGTH\<close> slices after the slice of the last call, the full length of the
  window. Then this call and all calls after it (at any slices \<open>ts\<close>) give the same
  results and leave the same state as the same calls on a limiter freshly constructed,
  at any time \<open>t'\<close>, with the same maximum.
\<close>

theorem idle_window_resets_to_fresh:
  assumes "length (mRequestCounters s) = HISTORY_LENGTH"
    and "mLastUpdateSlice s \<le> t"
    and "HISTORY_LENGTH \<le> unat t - unat (mLastUpdateSlice s)"
  shows "run s (t # ts) = run (RateLimit_ctor t' (mMaxRPS s)) (t # ts)"
proof -
  have "tryAquireRequestTicket t s = tryAquireRequestTicket t (reconcile t s)"
    by (simp add: tryAquire_reconcile)
  also have "\<dots> = tryAquireRequestTicket t (RateLimit_ctor t' (mMaxRPS s))"
    using reconcile_idle [OF assms] tryAquire_fresh [of t t' "mMaxRPS s"] by simp
  finally show ?thesis by simp
qed

theorem idle_window_resets_to_fresh_witness:
  "length (mRequestCounters \<lparr>mLastUpdateSlice = 5, mMaxRPS = 2,
         mRequestCounters = (replicate 1001 0)[4 := 1, 5 := 1], mCurrentRPS = 2\<rparr>)
     = HISTORY_LENGTH
   \<and> mLastUpdateSlice \<lparr>mLastUpdateSlice = 5, mMaxRPS = 2,
         mRequestCounters = (replicate 1001 0)[4 := 1, 5 := 1], mCurrentRPS = 2\<rparr>
       \<le> (1006 :: 64 word)
   \<and> HISTORY_LENGTH \<le> unat (1006 :: 64 word)
       - unat (mLastUpdateSlice \<lparr>mLastUpdateSlice = 5, mMaxRPS = 2,
         mRequestCounters = (replicate 1001 0)[4 := 1, 5 := 1], mCurrentRPS = 2\<rparr>)
   \<and> run \<lparr>mLastUpdateSlice = 5, mMaxRPS = 2,
         mRequestCounters = (replicate 1001 0)[4 := 1, 5 := 1], mCurrentRPS = 2\<rparr>
        [1006, 1006, 1007]
     = run (RateLimit_ctor 1000 2) [1006, 1006, 1007]"
proof -
  let ?s = "\<lparr>mLastUpdateSlice = 5, mMaxRPS = 2,
         mRequestCounters = (replicate 1001 0)[4 := 1, 5 := 1], mCurrentRPS = 2\<rparr>"
  have a: "length (mRequestCounters ?s) = HISTORY_LENGTH" by (simp add: HISTORY_LENGTH_eq)
  have b: "mLastUpdateSlice ?s \<le> (1006 :: 64 word)" by simp
  have c: "HISTORY_LENGTH \<le> unat (1006 :: 64 word) - unat (mLastUpdateSlice ?s)"
    by (simp add: HISTORY_LENGTH_eq)
  from idle_window_resets_to_fresh [OF a b c, of "[1006, 1007]" 1000] a b c
  show ?thesis by (simp del: run.simps)
qed

subsection \<open>The reconciliation of the counters\<close>

lemma mod_shift_neq:
  fixes a b :: nat
  assumes "a < b" "b - a < HISTORY_LENGTH"
  shows "a mod HISTORY_LENGTH \<noteq> b mod HISTORY_LENGTH"
proof
  assume "a mod HISTORY_LENGTH = b mod HISTORY_LENGTH"
  then have "HISTORY_LENGTH dvd b - a"
    using assms(1) by (metis less_imp_le_nat mod_eq_dvd_iff_nat)
  then show False using assms by (auto dest: dvd_imp_le)
qed

lemma clear_skipped_span:
  assumes "d < HISTORY_LENGTH" "length cs = HISTORY_LENGTH"
  shows "clear_skipped (Suc f mod HISTORY_LENGTH) (Suc (f + d) mod HISTORY_LENGTH) (rps, cs)
    = (rps - (\<Sum>s = Suc f..f + d. cs ! (s mod HISTORY_LENGTH)),
       map (\<lambda>i. if i \<in> (\<lambda>s. s mod HISTORY_LENGTH) ` {Suc f..f + d} then 0 else cs ! i)
           [0..<HISTORY_LENGTH])"
  using assms
proof (induction d arbitrary: f rps cs)
  case 0
  have "map (\<lambda>i. cs ! i) [0..<HISTORY_LENGTH] = cs"
    using "0.prems"(2) map_nth [of cs] by simp
  then show ?case by (subst clear_skipped.simps) simp
next
  case (Suc d)
  let ?H = HISTORY_LENGTH
  let ?i = "Suc f mod ?H"
  let ?stop = "Suc (f + Suc d) mod ?H"
  let ?cs1 = "cs[?i := 0]"
  have H0: "0 < ?H" by (simp add: HISTORY_LENGTH_eq)
  have i: "?i < ?H" and stop: "?stop < ?H" using H0 by simp_all
  have ni: "\<not> ?H \<le> ?i" "\<not> ?H \<le> ?stop" using i stop by (simp_all only: not_le)
  have ne: "?i \<noteq> ?stop"
    using mod_shift_neq [of "Suc f" "Suc (f + Suc d)"] Suc.prems(1) by simp
  have next_i: "(?i + 1) mod ?H = Suc (Suc f) mod ?H"
    by (simp add: mod_Suc_eq)
  have unfold: "clear_skipped ?i ?stop (rps, cs)
      = clear_skipped (Suc (Suc f) mod ?H) (Suc (Suc f + d) mod ?H) (rps - cs ! ?i, ?cs1)"
    using ni ne next_i by (subst clear_skipped.simps) (simp only: if_False simp_thms add_Suc_right add_Suc)
  have IH: "clear_skipped (Suc (Suc f) mod ?H) (Suc (Suc f + d) mod ?H) (rps - cs ! ?i, ?cs1)
      = (rps - cs ! ?i - (\<Sum>s = Suc (Suc f)..Suc f + d. ?cs1 ! (s mod ?H)),
         map (\<lambda>j. if j \<in> (\<lambda>s. s mod ?H) ` {Suc (Suc f)..Suc f + d} then 0 else ?cs1 ! j)
             [0..<?H])"
    using Suc.IH [of ?cs1 "Suc f" "rps - cs ! ?i"] Suc.prems by simp
  have other: "?cs1 ! (s mod ?H) = cs ! (s mod ?H)" if "s \<in> {Suc (Suc f)..Suc f + d}" for s
  proof -
    have "Suc f < s" "s - Suc f < ?H" using that Suc.prems(1) by auto
    then have "Suc f mod ?H \<noteq> s mod ?H"
      by (rule mod_shift_neq)
    then show ?thesis by simp
  qed
  have sum1: "(\<Sum>s = Suc (Suc f)..Suc f + d. ?cs1 ! (s mod ?H))
      = (\<Sum>s = Suc (Suc f)..Suc f + d. cs ! (s mod ?H))"
    by (rule sum.cong) (simp_all add: other)
  have split: "{Suc f..f + Suc d} = insert (Suc f) {Suc (Suc f)..Suc f + d}"
    by auto
  have img: "(\<lambda>s. s mod ?H) ` {Suc f..f + Suc d}
      = insert ?i ((\<lambda>s. s mod ?H) ` {Suc (Suc f)..Suc f + d})"
    by (simp only: split image_insert)
  have sum2: "(\<Sum>s = Suc f..f + Suc d. cs ! (s mod ?H))
      = cs ! ?i + (\<Sum>s = Suc (Suc f)..Suc f + d. cs ! (s mod ?H))"
    by (subst sum.atLeast_Suc_atMost) simp_all
  have lists: "map (\<lambda>j. if j \<in> (\<lambda>s. s mod ?H) ` {Suc (Suc f)..Suc f + d} then 0 else ?cs1 ! j)
             [0..<?H]
      = map (\<lambda>j. if j \<in> (\<lambda>s. s mod ?H) ` {Suc f..f + Suc d} then 0 else cs ! j) [0..<?H]"
  proof (rule map_cong [OF refl])
    fix j assume "j \<in> set [0..<?H]"
    then have j: "j < length cs" using Suc.prems(2) by simp
    show "(if j \<in> (\<lambda>s. s mod ?H) ` {Suc (Suc f)..Suc f + d} then 0 else ?cs1 ! j)
        = (if j \<in> (\<lambda>s. s mod ?H) ` {Suc f..f + Suc d} then 0 else cs ! j)"
      unfolding img using j by (cases "j = ?i") simp_all
  qed
  show ?case
    unfolding unfold IH sum1 sum2 lists by simp
qed

lemma unat_mod_HL: "unat ((t :: 64 word) mod of_nat HISTORY_LENGTH) = unat t mod HISTORY_LENGTH"
  by (simp add: HISTORY_LENGTH_eq unat_mod)

lemma word_sub_less_HL:
  fixes a t :: "64 word"
  assumes "a \<le> t"
  shows "t - a < of_nat HISTORY_LENGTH \<longleftrightarrow> unat t - unat a < HISTORY_LENGTH"
proof -
  have "unat (t - a) = unat t - unat a" using assms by (simp add: unat_sub)
  then show ?thesis by (simp add: HISTORY_LENGTH_eq word_less_nat_alt)
qed

lemma reconcile_cases:
  assumes len: "length (mRequestCounters s) = HISTORY_LENGTH"
    and le: "mLastUpdateSlice s \<le> t"
  shows "reconcile t s =
    (if t = mLastUpdateSlice s then s
     else if t - mLastUpdateSlice s < of_nat HISTORY_LENGTH then
       s\<lparr>mLastUpdateSlice := t,
         mRequestCounters :=
           map (\<lambda>i. if i \<in> (\<lambda>x. x mod HISTORY_LENGTH) ` {unat (mLastUpdateSlice s)<..unat t}
                    then 0 else mRequestCounters s ! i) [0..<HISTORY_LENGTH],
         mCurrentRPS := mCurrentRPS s
           - (\<Sum>x \<in> {unat (mLastUpdateSlice s)<..unat t}.
                mRequestCounters s ! (x mod HISTORY_LENGTH))\<rparr>
     else s\<lparr>mLastUpdateSlice := t, mRequestCounters := replicate HISTORY_LENGTH 0,
            mCurrentRPS := 0\<rparr>)"
proof (cases "t = mLastUpdateSlice s")
  case True
  then show ?thesis using reconcile_same [of s] by simp
next
  case ne: False
  show ?thesis
  proof (cases "t - mLastUpdateSlice s < of_nat HISTORY_LENGTH")
    case False
    then show ?thesis using ne len by (simp add: reconcile_def Let_def)
  next
    case True
    let ?a = "unat (mLastUpdateSlice s)" and ?b = "unat t"
    let ?H = HISTORY_LENGTH
    have ab: "?a \<le> ?b" using le by (simp add: word_le_nat_alt)
    have d: "?b - ?a < ?H" using True le by (simp add: word_sub_less_HL)
    have b: "?b = ?a + (?b - ?a)" using ab by simp
    have start: "(?a mod ?H + 1) mod ?H = Suc ?a mod ?H" by (simp add: mod_Suc_eq)
    have stop: "(?b mod ?H + 1) mod ?H = Suc (?a + (?b - ?a)) mod ?H"
      using ab by (simp add: mod_Suc_eq)
    have ivl: "{Suc ?a..?a + (?b - ?a)} = {?a<..?b}" using ab by auto
    have "clear_skipped ((?a mod ?H + 1) mod ?H) ((?b mod ?H + 1) mod ?H)
            (mCurrentRPS s, mRequestCounters s)
        = (mCurrentRPS s - (\<Sum>x \<in> {?a<..?b}. mRequestCounters s ! (x mod ?H)),
           map (\<lambda>i. if i \<in> (\<lambda>x. x mod ?H) ` {?a<..?b} then 0 else mRequestCounters s ! i)
             [0..<?H])"
      unfolding start stop using clear_skipped_span [OF d len, of ?a "mCurrentRPS s"]
      unfolding ivl .
    then show ?thesis
      using ne True by (simp add: reconcile_def Let_def unat_mod_HL)
  qed
qed


lemma reconcile_slots:
  assumes "length (mRequestCounters s) = HISTORY_LENGTH"
    and "mLastUpdateSlice s \<le> t"
  shows "mLastUpdateSlice (reconcile t s) = t"
    and "mMaxRPS (reconcile t s) = mMaxRPS s"
    and "t \<noteq> mLastUpdateSlice s \<Longrightarrow> \<not> t - mLastUpdateSlice s < of_nat HISTORY_LENGTH \<Longrightarrow>
         mRequestCounters (reconcile t s) = replicate HISTORY_LENGTH 0"
    and "t \<noteq> mLastUpdateSlice s \<Longrightarrow> t - mLastUpdateSlice s < of_nat HISTORY_LENGTH \<Longrightarrow>
         i < HISTORY_LENGTH \<Longrightarrow>
         mRequestCounters (reconcile t s) ! i =
           (if \<exists>x. unat (mLastUpdateSlice s) < x \<and> x \<le> unat t \<and> x mod HISTORY_LENGTH = i
            then 0 else mRequestCounters s ! i)"
proof -
  have img: "i \<in> (\<lambda>x. x mod HISTORY_LENGTH) ` {unat (mLastUpdateSlice s)<..unat t}
      \<longleftrightarrow> (\<exists>x. unat (mLastUpdateSlice s) < x \<and> x \<le> unat t \<and> x mod HISTORY_LENGTH = i)"
    by auto
  show "mLastUpdateSlice (reconcile t s) = t" "mMaxRPS (reconcile t s) = mMaxRPS s"
    unfolding reconcile_cases [OF assms] by simp_all
  show "t \<noteq> mLastUpdateSlice s \<Longrightarrow> \<not> t - mLastUpdateSlice s < of_nat HISTORY_LENGTH \<Longrightarrow>
         mRequestCounters (reconcile t s) = replicate HISTORY_LENGTH 0"
    unfolding reconcile_cases [OF assms] by simp
  show "t \<noteq> mLastUpdateSlice s \<Longrightarrow> t - mLastUpdateSlice s < of_nat HISTORY_LENGTH \<Longrightarrow>
         i < HISTORY_LENGTH \<Longrightarrow>
         mRequestCounters (reconcile t s) ! i =
           (if \<exists>x. unat (mLastUpdateSlice s) < x \<and> x \<le> unat t \<and> x mod HISTORY_LENGTH = i
            then 0 else mRequestCounters s ! i)"
    unfolding reconcile_cases [OF assms] using img by simp blast
qed

text \<open>
  Claim C4. With the clock not running backwards (\<open>mLastUpdateSlice s \<le> t\<close>), the
  reconciliation at slice \<open>t\<close> does exactly this. If \<open>t\<close> is the slice of the last call,
  no counter and not the total changes. Else if \<open>t - mLastUpdateSlice s < HISTORY_LENGTH\<close>,
  the counter of every slice \<open>x\<close> with \<open>mLastUpdateSlice s < x \<le> t\<close> (its index is
  \<open>x mod HISTORY_LENGTH\<close>) is set to 0, every other counter keeps its value, and the
  total decreases by the sum of the counts stored for these slices. Else all counters and
  the total are 0. In all cases the slice of the last call becomes \<open>t\<close>.
\<close>

theorem reconcile_by_cases:
  assumes "length (mRequestCounters s) = HISTORY_LENGTH"
    and "mLastUpdateSlice s \<le> t"
  shows "(t = mLastUpdateSlice s \<longrightarrow>
            mRequestCounters (reconcile t s) = mRequestCounters s
          \<and> mCurrentRPS (reconcile t s) = mCurrentRPS s)
     \<and> (t \<noteq> mLastUpdateSlice s \<and> t - mLastUpdateSlice s < of_nat HISTORY_LENGTH \<longrightarrow>
            length (mRequestCounters (reconcile t s)) = HISTORY_LENGTH
          \<and> (\<forall>i < HISTORY_LENGTH. mRequestCounters (reconcile t s) ! i =
                (if \<exists>x. unat (mLastUpdateSlice s) < x \<and> x \<le> unat t \<and> x mod HISTORY_LENGTH = i
                 then 0 else mRequestCounters s ! i))
          \<and> mCurrentRPS (reconcile t s) = mCurrentRPS s
                - (\<Sum>x \<in> {unat (mLastUpdateSlice s)<..unat t}.
                     mRequestCounters s ! (x mod HISTORY_LENGTH)))
     \<and> (t \<noteq> mLastUpdateSlice s \<and> \<not> t - mLastUpdateSlice s < of_nat HISTORY_LENGTH \<longrightarrow>
            mRequestCounters (reconcile t s) = replicate HISTORY_LENGTH 0
          \<and> mCurrentRPS (reconcile t s) = 0)
     \<and> mLastUpdateSlice (reconcile t s) = t \<and> mMaxRPS (reconcile t s) = mMaxRPS s"
proof -
  have img: "i \<in> (\<lambda>x. x mod HISTORY_LENGTH) ` {unat (mLastUpdateSlice s)<..unat t}
      \<longleftrightarrow> (\<exists>x. unat (mLastUpdateSlice s) < x \<and> x \<le> unat t \<and> x mod HISTORY_LENGTH = i)" for i
    by auto
  show ?thesis
    unfolding reconcile_cases [OF assms] by (simp add: img) blast
qed

theorem reconcile_by_cases_witness:
  "length (mRequestCounters \<lparr>mLastUpdateSlice = 5, mMaxRPS = 2,
         mRequestCounters = (replicate 1001 0)[4 := 1, 5 := 1], mCurrentRPS = 2\<rparr>)
     = HISTORY_LENGTH
   \<and> mLastUpdateSlice \<lparr>mLastUpdateSlice = 5, mMaxRPS = 2,
         mRequestCounters = (replicate 1001 0)[4 := 1, 5 := 1], mCurrentRPS = 2\<rparr>
       \<le> (1004 :: 64 word)
   \<and> (1004 :: 64 word) \<noteq> 5 \<and> (1004 :: 64 word) - 5 < of_nat HISTORY_LENGTH
   \<and> mCurrentRPS (reconcile 1004 \<lparr>mLastUpdateSlice = 5, mMaxRPS = 2,
         mRequestCounters = (replicate 1001 0)[4 := 1, 5 := 1], mCurrentRPS = 2\<rparr>)
       = 2 - (\<Sum>x \<in> {5<..1004}. (replicate 1001 0)[4 := 1, 5 := 1] ! (x mod HISTORY_LENGTH))
   \<and> mLastUpdateSlice (reconcile 1004 \<lparr>mLastUpdateSlice = 5, mMaxRPS = 2,
         mRequestCounters = (replicate 1001 0)[4 := 1, 5 := 1], mCurrentRPS = 2\<rparr>) = 1004"
proof -
  let ?s = "\<lparr>mLastUpdateSlice = 5, mMaxRPS = 2,
         mRequestCounters = (replicate 1001 0)[4 := 1, 5 := 1], mCurrentRPS = 2\<rparr>"
  have a: "length (mRequestCounters ?s) = HISTORY_LENGTH" by (simp add: HISTORY_LENGTH_eq)
  have b: "mLastUpdateSlice ?s \<le> (1004 :: 64 word)" by simp
  have c: "(1004 :: 64 word) \<noteq> 5" "(1004 :: 64 word) - 5 < of_nat HISTORY_LENGTH"
    by (simp_all add: HISTORY_LENGTH_eq)
  from reconcile_by_cases [OF a b] a b c show ?thesis by simp
qed

subsection \<open>Denied calls\<close>

lemma run_replicate_denied:
  "mMaxRPS s \<le> mCurrentRPS s \<Longrightarrow>
   run s (replicate n (mLastUpdateSlice s)) = (replicate n False, s)"
  by (induction n) (simp_all add: tryAquireRequestTicket_def reconcile_same)

lemma reconcile_keeps_or_clears:
  assumes len: "length (mRequestCounters s) = HISTORY_LENGTH"
    and le: "mLastUpdateSlice s \<le> t" and i: "i < HISTORY_LENGTH"
  shows "mRequestCounters (reconcile t s) ! i = mRequestCounters s ! i
       \<or> mRequestCounters (reconcile t s) ! i = 0"
proof (cases "t = mLastUpdateSlice s")
  case True
  then show ?thesis using reconcile_same [of s] by simp
next
  case ne: False
  show ?thesis
  proof (cases "t - mLastUpdateSlice s < of_nat HISTORY_LENGTH")
    case True
    show ?thesis using reconcile_slots(4) [OF len le ne True i] by (simp split: if_splits)
  next
    case False
    show ?thesis using reconcile_slots(3) [OF len le ne False] i by simp
  qed
qed

text \<open>
  Claim C5. A call that answers \<open>false\<close> leaves the state that the reconciliation of
  lines 55 to 73 alone produces: nothing but the bookkeeping of elapsed slices. With the
  clock not running backwards this means: the maximum is unchanged, the slice of the last
  call is the current one, and every counter either keeps its value or is set to 0; no
  admission is recorded. In particular, when the current total equals the maximum and the
  clock still shows the slice of the last call, any number \<open>n\<close> of repeated calls all
  answer \<open>false\<close> and leave the whole state (the total, every counter) as it was, so the
  total does not pass the maximum.
\<close>

theorem denial_changes_only_bookkeeping:
  "(\<not> fst (tryAquireRequestTicket t s) \<longrightarrow>
      snd (tryAquireRequestTicket t s) = reconcile t s)
   \<and> (\<not> fst (tryAquireRequestTicket t s) \<and> length (mRequestCounters s) = HISTORY_LENGTH
        \<and> mLastUpdateSlice s \<le> t \<longrightarrow>
      mMaxRPS (snd (tryAquireRequestTicket t s)) = mMaxRPS s
      \<and> mLastUpdateSlice (snd (tryAquireRequestTicket t s)) = t
      \<and> (\<forall>i<HISTORY_LENGTH.
            mRequestCounters (snd (tryAquireRequestTicket t s)) ! i = mRequestCounters s ! i
          \<or> mRequestCounters (snd (tryAquireRequestTicket t s)) ! i = 0))
   \<and> (mCurrentRPS s = mMaxRPS s \<longrightarrow>
      run s (replicate n (mLastUpdateSlice s)) = (replicate n False, s))"
proof -
  have a: "snd (tryAquireRequestTicket t s) = reconcile t s"
    if "\<not> fst (tryAquireRequestTicket t s)"
    using that by (simp add: tryAquireRequestTicket_def Let_def split: if_splits)
  have b: "mMaxRPS (reconcile t s) = mMaxRPS s \<and> mLastUpdateSlice (reconcile t s) = t
      \<and> (\<forall>i<HISTORY_LENGTH. mRequestCounters (reconcile t s) ! i = mRequestCounters s ! i
            \<or> mRequestCounters (reconcile t s) ! i = 0)"
    if "length (mRequestCounters s) = HISTORY_LENGTH" "mLastUpdateSlice s \<le> t"
    using reconcile_slots(1,2) [OF that] reconcile_keeps_or_clears [OF that] by simp
  have c: "run s (replicate n (mLastUpdateSlice s)) = (replicate n False, s)"
    if "mCurrentRPS s = mMaxRPS s"
    using that by (simp add: run_replicate_denied)
  show ?thesis using a b c by metis
qed

theorem denial_changes_only_bookkeeping_witness:
  "\<not> fst (tryAquireRequestTicket 5
        \<lparr>mLastUpdateSlice = 5, mMaxRPS = 2,
         mRequestCounters = (replicate 1001 0)[4 := 1, 5 := 1], mCurrentRPS = 2\<rparr>)
   \<and> snd (tryAquireRequestTicket 5
        \<lparr>mLastUpdateSlice = 5, mMaxRPS = 2,
         mRequestCounters = (replicate 1001 0)[4 := 1, 5 := 1], mCurrentRPS = 2\<rparr>)
     = reconcile 5
        \<lparr>mLastUpdateSlice = 5, mMaxRPS = 2,
         mRequestCounters = (replicate 1001 0)[4 := 1, 5 := 1], mCurrentRPS = 2\<rparr>
   \<and> length (mRequestCounters \<lparr>mLastUpdateSlice = 5, mMaxRPS = 2,
         mRequestCounters = (replicate 1001 0)[4 := 1, 5 := 1], mCurrentRPS = 2\<rparr>)
     = HISTORY_LENGTH
   \<and> mLastUpdateSlice \<lparr>mLastUpdateSlice = 5, mMaxRPS = 2,
         mRequestCounters = (replicate 1001 0)[4 := 1, 5 := 1], mCurrentRPS = 2\<rparr> \<le> 5
   \<and> mMaxRPS (snd (tryAquireRequestTicket 5
        \<lparr>mLastUpdateSlice = 5, mMaxRPS = 2,
         mRequestCounters = (replicate 1001 0)[4 := 1, 5 := 1], mCurrentRPS = 2\<rparr>)) = 2
   \<and> mCurrentRPS \<lparr>mLastUpdateSlice = 5, mMaxRPS = 2,
         mRequestCounters = (replicate 1001 0)[4 := 1, 5 := 1], mCurrentRPS = 2\<rparr>
     = mMaxRPS \<lparr>mLastUpdateSlice = 5, mMaxRPS = 2,
         mRequestCounters = (replicate 1001 0)[4 := 1, 5 := 1], mCurrentRPS = 2\<rparr>
   \<and> run \<lparr>mLastUpdateSlice = 5, mMaxRPS = 2,
         mRequestCounters = (replicate 1001 0)[4 := 1, 5 := 1], mCurrentRPS = 2\<rparr>
        (replicate 3 5)
     = (replicate 3 False, \<lparr>mLastUpdateSlice = 5, mMaxRPS = 2,
         mRequestCounters = (replicate 1001 0)[4 := 1, 5 := 1], mCurrentRPS = 2\<rparr>)"
proof -
  let ?s = "\<lparr>mLastUpdateSlice = 5, mMaxRPS = 2,
         mRequestCounters = (replicate 1001 0)[4 := 1, 5 := 1], mCurrentRPS = 2\<rparr>"
  have d: "\<not> fst (tryAquireRequestTicket 5 ?s)"
    using reconcile_same [of ?s] by (simp add: tryAquireRequestTicket_def)
  have e: "mCurrentRPS ?s = mMaxRPS ?s" by simp
  have l: "length (mRequestCounters ?s) = HISTORY_LENGTH" "mLastUpdateSlice ?s \<le> 5"
    by (simp_all add: HISTORY_LENGTH_eq)
  note r = denial_changes_only_bookkeeping [of 5 ?s 3]
  have r1: "snd (tryAquireRequestTicket 5 ?s) = reconcile 5 ?s" using r d by blast
  have r2: "mMaxRPS (snd (tryAquireRequestTicket 5 ?s)) = mMaxRPS ?s" using r d l by blast
  have r3: "run ?s (replicate 3 (mLastUpdateSlice ?s)) = (replicate 3 False, ?s)"
    using r e by blast
  show ?thesis using d e l r1 r2 r3 by (simp del: run.simps)
qed

subsection \<open>The invariant: the total is the sum of the counters\<close>

lemma clear_skipped_in_range:
  "(from_index + 1) mod HISTORY_LENGTH < HISTORY_LENGTH
   \<and> (to_index + 1) mod HISTORY_LENGTH < HISTORY_LENGTH"
  by (simp add: HISTORY_LENGTH_eq)

lemma clear_skipped_loop:
  assumes "i < HISTORY_LENGTH" "stop < HISTORY_LENGTH"
  shows "clear_skipped i stop (rps, cs) =
     (if i = stop then (rps, cs)
      else clear_skipped ((i + 1) mod HISTORY_LENGTH) stop (rps - cs ! i, cs[i := 0]))"
  using assms by (subst clear_skipped.simps) (simp add: not_le)

lemma sum_list_update_int:
  fixes xs :: "int list"
  shows "i < length xs \<Longrightarrow> sum_list (xs[i := v]) = sum_list xs - xs ! i + v"
proof (induction xs arbitrary: i)
  case Nil
  then show ?case by simp
next
  case (Cons x xs)
  then show ?case by (cases i) simp_all
qed

lemma counters_ok_nonneg: "counters_ok p \<Longrightarrow> 0 \<le> fst p"
proof -
  assume ok: "counters_ok p"
  then have "0 \<le> sum_list (snd p)"
    by (intro sum_list_nonneg) (simp add: counters_ok_def)
  then show ?thesis using ok by (simp add: counters_ok_def)
qed

lemma clear_skipped_ok:
  "counters_ok p \<Longrightarrow>
   counters_ok (clear_skipped i stop p) \<and> fst (clear_skipped i stop p) \<le> fst p"
proof (induction i stop p rule: clear_skipped.induct)
  case (1 i stop rps cs)
  show ?case
  proof (cases "i = stop \<or> HISTORY_LENGTH \<le> i \<or> HISTORY_LENGTH \<le> stop")
    case True
    then show ?thesis using "1.prems" by (subst (1 2) clear_skipped.simps) simp
  next
    case False
    then have i: "i < length cs" using "1.prems" by (simp add: counters_ok_def)
    have nn: "0 \<le> cs ! i" using i "1.prems" by (simp add: counters_ok_def)
    have "set (cs[i := 0]) \<subseteq> insert 0 (set cs)" by (rule set_update_subset_insert)
    then have "\<forall>x\<in>set (cs[i := 0]). 0 \<le> x"
      using "1.prems" by (auto simp: counters_ok_def)
    then have ok: "counters_ok (rps - cs ! i, cs[i := 0])"
      using "1.prems" i by (simp add: counters_ok_def sum_list_update_int)
    have eq: "clear_skipped i stop (rps, cs) =
          clear_skipped ((i + 1) mod HISTORY_LENGTH) stop (rps - cs ! i, cs[i := 0])"
      using False by (subst clear_skipped.simps) simp
    show ?thesis
      using "1.IH" [OF False ok] nn unfolding eq by simp
  qed
qed

lemma state_ok_ctor: "state_ok (RateLimit_ctor t0 m)"
  by (simp add: state_ok_def counters_ok_def RateLimit_ctor_def sum_list_replicate)

lemma reconcile_ok:
  assumes "state_ok s"
  shows "state_ok (reconcile t s)" "mMaxRPS (reconcile t s) = mMaxRPS s"
    "mCurrentRPS (reconcile t s) \<le> mCurrentRPS s"
proof -
  let ?p = "clear_skipped ((unat (mLastUpdateSlice s mod of_nat HISTORY_LENGTH) + 1) mod HISTORY_LENGTH)
      ((unat (t mod of_nat HISTORY_LENGTH) + 1) mod HISTORY_LENGTH)
      (mCurrentRPS s, mRequestCounters s)"
  have c: "counters_ok (mCurrentRPS s, mRequestCounters s)"
    and b: "mCurrentRPS s \<le> max 0 (mMaxRPS s)"
    using assms by (simp_all add: state_ok_def)
  have p: "counters_ok ?p" "fst ?p \<le> mCurrentRPS s"
    using clear_skipped_ok [OF c] by simp_all
  have nn: "0 \<le> mCurrentRPS s"
    using counters_ok_nonneg [OF c] by simp
  have z: "counters_ok (0, replicate (length (mRequestCounters s)) 0)"
    using c by (simp add: counters_ok_def sum_list_replicate)
  show "state_ok (reconcile t s)"
    using p b c z by (cases ?p) (auto simp: reconcile_def Let_def state_ok_def)
  show "mMaxRPS (reconcile t s) = mMaxRPS s"
    by (cases ?p) (simp add: reconcile_def Let_def)
  show "mCurrentRPS (reconcile t s) \<le> mCurrentRPS s"
    using p nn by (cases ?p) (auto simp: reconcile_def Let_def)
qed

lemma tryAquire_ok:
  assumes "state_ok s"
  shows "state_ok (snd (tryAquireRequestTicket t s))"
    and "mMaxRPS (snd (tryAquireRequestTicket t s)) = mMaxRPS s"
proof -
  let ?s1 = "reconcile t s"
  let ?k = "unat (t mod of_nat HISTORY_LENGTH)"
  have s1: "state_ok ?s1" "mMaxRPS ?s1 = mMaxRPS s" using reconcile_ok [OF assms] by simp_all
  have k: "?k < length (mRequestCounters ?s1)"
    using s1(1) by (simp add: state_ok_def counters_ok_def HISTORY_LENGTH_eq unat_mod)
  have "set ((mRequestCounters ?s1)[?k := mRequestCounters ?s1 ! ?k + 1])
      \<subseteq> insert (mRequestCounters ?s1 ! ?k + 1) (set (mRequestCounters ?s1))"
    by (rule set_update_subset_insert)
  moreover have "0 \<le> mRequestCounters ?s1 ! ?k"
    using s1(1) k by (simp add: state_ok_def counters_ok_def)
  ultimately have nn: "\<forall>x\<in>set ((mRequestCounters ?s1)[?k := mRequestCounters ?s1 ! ?k + 1]). 0 \<le> x"
    using s1(1) by (auto simp: state_ok_def counters_ok_def)
  show "state_ok (snd (tryAquireRequestTicket t s))"
    using s1 k nn
    by (auto simp: tryAquireRequestTicket_def Let_def state_ok_def counters_ok_def
        sum_list_update_int)
  show "mMaxRPS (snd (tryAquireRequestTicket t s)) = mMaxRPS s"
    using s1(2) by (simp add: tryAquireRequestTicket_def Let_def)
qed

lemma run_ok:
  "state_ok s \<Longrightarrow> state_ok (snd (run s ts)) \<and> mMaxRPS (snd (run s ts)) = mMaxRPS s"
proof (induction ts arbitrary: s)
  case Nil
  then show ?case by simp
next
  case (Cons t ts)
  show ?case
    using Cons.IH [OF tryAquire_ok(1) [OF Cons.prems, of t]] tryAquire_ok(2) [OF Cons.prems, of t]
    by (simp add: split_beta)
qed

lemma member_le_sum_list_int:
  fixes xs :: "int list"
  shows "\<forall>x\<in>set xs. 0 \<le> x \<Longrightarrow> y \<in> set xs \<Longrightarrow> y \<le> sum_list xs"
proof (induction xs)
  case Nil
  then show ?case by simp
next
  case (Cons x xs)
  have "0 \<le> sum_list xs" using Cons.prems(1) by (simp add: sum_list_nonneg)
  then show ?case using Cons by auto
qed

lemma reachable_no_overflow:
  assumes "maxRPS < 2 ^ 31" and "s = snd (run (RateLimit_ctor t0 maxRPS) ts)"
  shows "0 \<le> mCurrentRPS s \<and> mCurrentRPS s < 2 ^ 31
       \<and> (\<forall>x\<in>set (mRequestCounters s). 0 \<le> x \<and> x < 2 ^ 31)"
proof -
  have ok: "state_ok s" and m: "mMaxRPS s = maxRPS"
    using run_ok [OF state_ok_ctor, of t0 maxRPS ts] assms(2)
    by (simp_all add: RateLimit_ctor_def)
  have nn: "\<forall>x\<in>set (mRequestCounters s). 0 \<le> x"
    and sum: "sum_list (mRequestCounters s) = mCurrentRPS s"
    and le: "mCurrentRPS s \<le> max 0 maxRPS"
    using ok m by (simp_all add: state_ok_def counters_ok_def)
  have "\<forall>x\<in>set (mRequestCounters s). x \<le> mCurrentRPS s"
    using member_le_sum_list_int [OF nn] sum by auto
  moreover have "0 \<le> mCurrentRPS s"
    using counters_ok_nonneg [of "(mCurrentRPS s, mRequestCounters s)"] ok
    by (simp add: state_ok_def)
  ultimately show ?thesis using nn le assms(1) by fastforce
qed

lemma run_burst:
  "mCurrentRPS s + int n \<le> mMaxRPS s \<Longrightarrow>
   fst (run s (replicate n (mLastUpdateSlice s))) = replicate n True
   \<and> mCurrentRPS (snd (run s (replicate n (mLastUpdateSlice s)))) = mCurrentRPS s + int n"
proof (induction n arbitrary: s)
  case 0
  then show ?case by simp
next
  case (Suc n)
  let ?t = "mLastUpdateSlice s"
  let ?s1 = "snd (tryAquireRequestTicket ?t s)"
  have r: "fst (tryAquireRequestTicket ?t s)" "mCurrentRPS ?s1 = mCurrentRPS s + 1"
    "mMaxRPS ?s1 = mMaxRPS s" "mLastUpdateSlice ?s1 = ?t"
    using Suc.prems by (simp_all add: tryAquireRequestTicket_def reconcile_same Let_def)
  have "mCurrentRPS ?s1 + int n \<le> mMaxRPS ?s1" using r Suc.prems by simp
  from Suc.IH [OF this] r show ?case by (simp add: split_beta)
qed

text \<open>
  Claim C2. In every state that a sequence \<open>ts\<close> of calls reaches from the constructed
  object (at any clock values), the total \<open>mCurrentRPS\<close> is the sum of all entries of
  \<open>mRequestCounters\<close>; for a non-negative maximum the total does not exceed the maximum;
  and for a positive maximum the total equal to the maximum is reached, by \<open>maxRPS\<close>
  calls in the slice of construction.
\<close>

theorem aggregate_is_sum_and_bounded:
  "sum_list (mRequestCounters (snd (run (RateLimit_ctor t0 maxRPS) ts)))
      = mCurrentRPS (snd (run (RateLimit_ctor t0 maxRPS) ts))
   \<and> (0 \<le> maxRPS \<longrightarrow> mCurrentRPS (snd (run (RateLimit_ctor t0 maxRPS) ts)) \<le> maxRPS)
   \<and> (0 < maxRPS \<longrightarrow>
        mCurrentRPS (snd (run (RateLimit_ctor t0 maxRPS) (replicate (nat maxRPS) t0))) = maxRPS)"
proof -
  let ?s = "snd (run (RateLimit_ctor t0 maxRPS) ts)"
  have "state_ok ?s" "mMaxRPS ?s = maxRPS"
    using run_ok [OF state_ok_ctor, of t0 maxRPS ts] by (simp_all add: RateLimit_ctor_def)
  then have a: "sum_list (mRequestCounters ?s) = mCurrentRPS ?s"
    and b: "0 \<le> maxRPS \<longrightarrow> mCurrentRPS ?s \<le> maxRPS"
    by (auto simp: state_ok_def counters_ok_def)
  have c: "mCurrentRPS (snd (run (RateLimit_ctor t0 maxRPS) (replicate (nat maxRPS) t0))) = maxRPS"
    if "0 < maxRPS"
    using run_burst [of "RateLimit_ctor t0 maxRPS" "nat maxRPS"] that
    by (simp add: RateLimit_ctor_def)
  show ?thesis using a b c by blast
qed

theorem aggregate_is_sum_and_bounded_witness:
  "(0::int) \<le> 2 \<and> (0::int) < 2
   \<and> sum_list (mRequestCounters (snd (run (RateLimit_ctor 3 2) [3, 4, 4, 900])))
      = mCurrentRPS (snd (run (RateLimit_ctor 3 2) [3, 4, 4, 900]))
   \<and> mCurrentRPS (snd (run (RateLimit_ctor 3 2) [3, 4, 4, 900])) \<le> 2
   \<and> mCurrentRPS (snd (run (RateLimit_ctor 3 2) (replicate (nat 2) 3))) = 2"
  using aggregate_is_sum_and_bounded [of 3 2 "[3, 4, 4, 900]"]
  by (simp del: run.simps replicate.simps)

subsection \<open>The object computes the reference model\<close>

lemma count_by_residue:
  "(\<Sum>i<HISTORY_LENGTH. int (length (filter (\<lambda>u. P u \<and> u mod HISTORY_LENGTH = i) log)))
     = int (length (filter P log))"
proof (induction log)
  case Nil
  then show ?case by simp
next
  case (Cons u log)
  have r: "u mod HISTORY_LENGTH < HISTORY_LENGTH" by (simp add: HISTORY_LENGTH_eq)
  have "(\<Sum>i<HISTORY_LENGTH. int (length (filter (\<lambda>u. P u \<and> u mod HISTORY_LENGTH = i) (u # log))))
      = (\<Sum>i<HISTORY_LENGTH. (if P u \<and> u mod HISTORY_LENGTH = i then 1 else 0)
            + int (length (filter (\<lambda>u. P u \<and> u mod HISTORY_LENGTH = i) log)))"
    by (rule sum.cong) simp_all
  also have "\<dots> = (\<Sum>i<HISTORY_LENGTH. if P u \<and> u mod HISTORY_LENGTH = i then 1 else 0)
      + int (length (filter P log))"
    by (simp add: sum.distrib Cons.IH)
  also have "(\<Sum>i<HISTORY_LENGTH. if P u \<and> u mod HISTORY_LENGTH = i then 1 else 0)
      = (if P u then 1 else (0::int))"
  proof (cases "P u")
    case True
    then have "(\<Sum>i<HISTORY_LENGTH. if P u \<and> u mod HISTORY_LENGTH = i then 1 else (0::int))
        = (\<Sum>i\<in>{..<HISTORY_LENGTH}. if u mod HISTORY_LENGTH = i then 1 else 0)" by simp
    also have "\<dots> = 1" using r by (subst sum.delta') simp_all
    finally show ?thesis using True by simp
  next
    case False
    then show ?thesis by simp
  qed
  finally show ?case by simp
qed

lemma tracks_total:
  assumes "tracks s log"
  shows "mCurrentRPS s = int (length (filter (in_window (unat (mLastUpdateSlice s))) log))"
proof -
  let ?cs = "mRequestCounters s"
  have len: "length ?cs = HISTORY_LENGTH" and sum: "sum_list ?cs = mCurrentRPS s"
    using assms by (simp_all add: tracks_def state_ok_def counters_ok_def)
  have "sum_list ?cs = (\<Sum>i<HISTORY_LENGTH. ?cs ! i)"
    using len by (simp add: sum_list_sum_nth atLeast0LessThan)
  also have "\<dots> = (\<Sum>i<HISTORY_LENGTH. int (length (filter
        (\<lambda>u. in_window (unat (mLastUpdateSlice s)) u \<and> u mod HISTORY_LENGTH = i) log)))"
    using assms by (intro sum.cong) (simp_all add: tracks_def)
  finally show ?thesis using sum by (simp add: count_by_residue)
qed

lemma tracks_ctor: "tracks (RateLimit_ctor t0 m) []"
  by (simp add: tracks_def state_ok_ctor) (simp add: RateLimit_ctor_def)

lemma reconcile_tracks:
  assumes tr: "tracks s log" and le: "mLastUpdateSlice s \<le> t"
  shows "tracks (reconcile t s) log"
proof -
  let ?a = "unat (mLastUpdateSlice s)" and ?b = "unat t"
  let ?H = HISTORY_LENGTH
  let ?cs = "mRequestCounters s"
  have ok: "state_ok s" and len: "length ?cs = ?H"
    and cnt: "\<And>i. i < ?H \<Longrightarrow> ?cs ! i =
        int (length (filter (\<lambda>u. in_window ?a u \<and> u mod ?H = i) log))"
    and old: "\<And>u. u \<in> set log \<Longrightarrow> u \<le> ?a"
    using tr by (simp_all add: tracks_def state_ok_def counters_ok_def)
  have ab: "?a \<le> ?b" using le by (simp add: word_le_nat_alt)
  have ok': "state_ok (reconcile t s)" using reconcile_ok(1) [OF ok] .
  have last': "mLastUpdateSlice (reconcile t s) = t"
    using reconcile_slots(1) [OF len le] .
  have old': "\<forall>u\<in>set log. u \<le> ?b" using old ab by fastforce
  have "mRequestCounters (reconcile t s) ! i =
        int (length (filter (\<lambda>u. in_window ?b u \<and> u mod ?H = i) log))" if i: "i < ?H" for i
  proof (cases "t = mLastUpdateSlice s")
    case True
    then show ?thesis using cnt [OF i] reconcile_same [of s] by simp
  next
    case ne: False
    show ?thesis
    proof (cases "t - mLastUpdateSlice s < of_nat ?H")
      case False
      then have far: "?H \<le> ?b - ?a" using le by (simp add: word_sub_less_HL)
      have "\<not> in_window ?b u" if "u \<in> set log" for u
        using old [OF that] far by (simp add: in_window_def HISTORY_LENGTH_def)
      then have "filter (\<lambda>u. in_window ?b u \<and> u mod ?H = i) log = []"
        by (simp add: filter_empty_conv)
      moreover have "mRequestCounters (reconcile t s) = replicate ?H 0"
        using reconcile_slots(3) [OF len le ne False] .
      ultimately show ?thesis using i by simp
    next
      case True
      then have near: "?b - ?a < ?H" using le by (simp add: word_sub_less_HL)
      have val: "mRequestCounters (reconcile t s) ! i =
          (if \<exists>x. ?a < x \<and> x \<le> ?b \<and> x mod ?H = i then 0 else ?cs ! i)"
        using reconcile_slots(4) [OF len le ne True i] .
      show ?thesis
      proof (cases "\<exists>x. ?a < x \<and> x \<le> ?b \<and> x mod ?H = i")
        case True
        then obtain x where x: "?a < x" "x \<le> ?b" "x mod ?H = i" by blast
        have "\<not> (in_window ?b u \<and> u mod ?H = i)" if "u \<in> set log" for u
        proof
          assume h: "in_window ?b u \<and> u mod ?H = i"
          have "u < x" using old [OF that] x(1) by simp
          moreover have "x - u < ?H"
            using h x(2) by (auto simp: in_window_def HISTORY_LENGTH_def)
          ultimately have "u mod ?H \<noteq> x mod ?H" by (rule mod_shift_neq)
          then show False using h x(3) by simp
        qed
        then have "filter (\<lambda>u. in_window ?b u \<and> u mod ?H = i) log = []"
          by (simp add: filter_empty_conv)
        then show ?thesis using val True by simp
      next
        case False
        have "(in_window ?a u \<and> u mod ?H = i) = (in_window ?b u \<and> u mod ?H = i)"
          if "u \<in> set log" for u
        proof (cases "u mod ?H = i")
          case False
          then show ?thesis by simp
        next
          case res: True
          have "in_window ?b u" if w: "in_window ?a u"
          proof (rule ccontr)
            assume "\<not> in_window ?b u"
            then have "u + ?H \<le> ?b" by (simp add: in_window_def HISTORY_LENGTH_def)
            moreover have "?a < u + ?H" using w by (simp add: in_window_def HISTORY_LENGTH_def)
            moreover have "(u + ?H) mod ?H = i" using res by simp
            ultimately show False using False by blast
          qed
          moreover have "in_window ?a u" if "in_window ?b u"
            using that ab by (simp add: in_window_def)
          ultimately show ?thesis by blast
        qed
        then have "filter (\<lambda>u. in_window ?a u \<and> u mod ?H = i) log
            = filter (\<lambda>u. in_window ?b u \<and> u mod ?H = i) log"
          by (intro filter_cong) simp_all
        then show ?thesis using val False cnt [OF i] by simp
      qed
    qed
  qed
  then show ?thesis
    using ok' old' last' by (simp add: tracks_def)
qed

lemma tryAquire_tracks:
  assumes tr: "tracks s log" and le: "mLastUpdateSlice s \<le> t"
  defines "r \<equiv> int (length (filter (in_window (unat t)) log)) < mMaxRPS s"
  shows "fst (tryAquireRequestTicket t s) = r"
    and "tracks (snd (tryAquireRequestTicket t s)) (if r then unat t # log else log)"
    and "mMaxRPS (snd (tryAquireRequestTicket t s)) = mMaxRPS s"
    and "mLastUpdateSlice (snd (tryAquireRequestTicket t s)) = t"
proof -
  let ?s1 = "reconcile t s"
  let ?H = HISTORY_LENGTH
  let ?k = "unat (t mod of_nat ?H)"
  let ?cs1 = "mRequestCounters ?s1"
  have tr1: "tracks ?s1 log" using reconcile_tracks [OF tr le] .
  have ok: "state_ok s" using tr by (simp add: tracks_def)
  have len: "length (mRequestCounters s) = ?H"
    using ok by (simp add: state_ok_def counters_ok_def)
  have last1: "mLastUpdateSlice ?s1 = t" and max1: "mMaxRPS ?s1 = mMaxRPS s"
    using reconcile_slots(1,2) [OF len le] by simp_all
  have total: "mCurrentRPS ?s1 = int (length (filter (in_window (unat t)) log))"
    using tracks_total [OF tr1] last1 by simp
  then have dec: "(mCurrentRPS ?s1 < mMaxRPS ?s1) = r" using max1 by (simp add: r_def)
  show "fst (tryAquireRequestTicket t s) = r"
    using dec by (simp add: tryAquireRequestTicket_def Let_def)
  show "mMaxRPS (snd (tryAquireRequestTicket t s)) = mMaxRPS s"
    using max1 by (simp add: tryAquireRequestTicket_def Let_def)
  show "mLastUpdateSlice (snd (tryAquireRequestTicket t s)) = t"
    using last1 by (simp add: tryAquireRequestTicket_def Let_def)
  show "tracks (snd (tryAquireRequestTicket t s)) (if r then unat t # log else log)"
  proof (cases r)
    case False
    then show ?thesis using tr1 dec by (simp add: tryAquireRequestTicket_def Let_def)
  next
    case True
    let ?s2 = "snd (tryAquireRequestTicket t s)"
    have s2: "?s2 = ?s1\<lparr>mCurrentRPS := mCurrentRPS ?s1 + 1,
                         mRequestCounters := ?cs1[?k := ?cs1 ! ?k + 1]\<rparr>"
      using True dec by (simp add: tryAquireRequestTicket_def Let_def)
    have k: "?k = unat t mod ?H" by (rule unat_mod_HL)
    have len1: "length ?cs1 = ?H"
      using tr1 by (simp add: tracks_def state_ok_def counters_ok_def)
    have ok2: "state_ok ?s2" using tryAquire_ok(1) [OF ok] .
    have cnt1: "\<And>i. i < ?H \<Longrightarrow> ?cs1 ! i =
        int (length (filter (\<lambda>u. in_window (unat t) u \<and> u mod ?H = i) log))"
      using tr1 last1 by (simp add: tracks_def)
    have old1: "\<forall>u\<in>set log. u \<le> unat t" using tr1 last1 by (simp add: tracks_def)
    have self: "in_window (unat t) (unat t)" by (simp add: in_window_def)
    have "mRequestCounters ?s2 ! i =
        int (length (filter (\<lambda>u. in_window (unat t) u \<and> u mod ?H = i) (unat t # log)))"
      if i: "i < ?H" for i
    proof (cases "i = ?k")
      case True
      then show ?thesis using i len1 cnt1 [OF i] self k by (simp add: s2)
    next
      case False
      then show ?thesis using i len1 cnt1 [OF i] self k by (auto simp add: s2)
    qed
    moreover have "mLastUpdateSlice ?s2 = t" using last1 by (simp add: s2)
    ultimately show ?thesis using True ok2 old1 by (simp add: tracks_def)
  qed
qed

lemma run_tracks:
  assumes "tracks s log" and "sorted (mLastUpdateSlice s # ts)"
  shows "fst (run s ts) = window_model (mMaxRPS s) log (map unat ts)
       \<and> tracks (snd (run s ts)) (window_log (mMaxRPS s) log (map unat ts))"
  using assms
proof (induction ts arbitrary: s log)
  case Nil
  then show ?case by simp
next
  case (Cons t ts)
  let ?r = "int (length (filter (in_window (unat t)) log)) < mMaxRPS s"
  let ?s1 = "snd (tryAquireRequestTicket t s)"
  have le: "mLastUpdateSlice s \<le> t" using Cons.prems(2) by simp
  note step = tryAquire_tracks [OF Cons.prems(1) le]
  have "sorted (mLastUpdateSlice ?s1 # ts)" using Cons.prems(2) step(4) by simp
  from Cons.IH [OF step(2) this] step(1,3)
  show ?case by (simp add: split_beta Let_def)
qed

lemma run_window_model:
  assumes "sorted (t0 # ts)"
  shows "fst (run (RateLimit_ctor t0 maxRPS) ts) = window_model maxRPS [] (map unat ts)"
  using run_tracks [OF tracks_ctor, of t0 maxRPS ts] assms
  by (simp add: RateLimit_ctor_def)

subsection \<open>At most the maximum in every window\<close>

lemma length_filter_mono:
  "(\<And>x. x \<in> set xs \<Longrightarrow> P x \<Longrightarrow> Q x) \<Longrightarrow> length (filter P xs) \<le> length (filter Q xs)"
  by (induction xs) auto

lemma window_log_admitted:
  "window_log m log (map unat ts)
     = rev (admitted ts (window_model m log (map unat ts))) @ log"
proof (induction ts arbitrary: log)
  case Nil
  then show ?case by (simp add: admitted_def)
next
  case (Cons t ts)
  then show ?case by (simp add: admitted_def Let_def)
qed

lemma window_log_bound:
  assumes "\<And>a. int (length (filter (\<lambda>u. a \<le> u \<and> u \<le> a + N_TIME_SLICES) log)) \<le> max 0 m"
  shows "int (length (filter (\<lambda>u. a \<le> u \<and> u \<le> a + N_TIME_SLICES) (window_log m log ts)))
     \<le> max 0 m"
  using assms
proof (induction ts arbitrary: log a)
  case Nil
  then show ?case by simp
next
  case (Cons t ts)
  let ?log' = "if int (length (filter (in_window t) log)) < m then t # log else log"
  have "int (length (filter (\<lambda>u. b \<le> u \<and> u \<le> b + N_TIME_SLICES) ?log')) \<le> max 0 m" for b
  proof (cases "int (length (filter (in_window t) log)) < m \<and> b \<le> t \<and> t \<le> b + N_TIME_SLICES")
    case False
    then show ?thesis using Cons.prems [of b] by auto
  next
    case True
    have "length (filter (\<lambda>u. b \<le> u \<and> u \<le> b + N_TIME_SLICES) log)
        \<le> length (filter (in_window t) log)"
      using True by (intro length_filter_mono) (simp add: in_window_def)
    then show ?thesis using True by simp
  qed
  from Cons.IH [of ?log' a, OF this] show ?case by simp
qed

text \<open>
  Claim C1. Calls hold the lock from the reading of the clock to the return, so the
  calls of any number of callers form one sequence \<open>ts\<close> of slices that does not
  decrease (the clock is steady). For a limiter with a non-negative maximum and every
  \<open>a\<close>, at most \<open>maxRPS\<close> of the calls of the whole run were admitted at the slices
  \<open>a, \<dots>, a + N_TIME_SLICES\<close>. These are \<open>N_TIME_SLICES + 1\<close> consecutive slices, one
  more than a second holds, so every window of one second lies inside such a range,
  whatever its position relative to the slice boundaries: the count within a one-second
  window is at most \<open>maxRPS\<close>, with the one slice of tolerance in the width of the window.
\<close>

theorem admissions_per_window_bounded:
  assumes "sorted (t0 # ts)" and "0 \<le> maxRPS"
  shows "int (length (filter (\<lambda>u. a \<le> u \<and> u \<le> a + N_TIME_SLICES)
            (admitted ts (fst (run (RateLimit_ctor t0 maxRPS) ts))))) \<le> maxRPS"
proof -
  let ?P = "\<lambda>u. a \<le> u \<and> u \<le> a + N_TIME_SLICES"
  let ?adm = "admitted ts (fst (run (RateLimit_ctor t0 maxRPS) ts))"
  have "window_log maxRPS [] (map unat ts) = rev ?adm"
    using window_log_admitted [of maxRPS "[]" ts] run_window_model [OF assms(1)] by simp
  then have "length (filter ?P ?adm) = length (filter ?P (window_log maxRPS [] (map unat ts)))"
    by (simp add: rev_filter [symmetric])
  moreover have "int (length (filter ?P (window_log maxRPS [] (map unat ts)))) \<le> max 0 maxRPS"
    by (rule window_log_bound) simp
  ultimately show ?thesis using assms(2) by simp
qed

theorem admissions_per_window_bounded_witness:
  "sorted [0, 0, 0, 1000 :: 64 word] \<and> (0::int) \<le> 1
   \<and> int (length (filter (\<lambda>u. 0 \<le> u \<and> u \<le> 0 + N_TIME_SLICES)
            (admitted [0, 0, 1000] (fst (run (RateLimit_ctor 0 1) [0, 0, 1000]))))) \<le> 1"
proof -
  have s: "sorted [0, 0, 0, 1000 :: 64 word]" by simp
  have m: "(0::int) \<le> 1" by simp
  from admissions_per_window_bounded [OF s m, of 0] s show ?thesis by (simp del: run.simps)
qed

subsection \<open>A burst, a pause, a second burst\<close>













section \<open>Properties of the call recorder\<close>

lemma length_resize: "length (resize n xs) = n"
  by (simp add: resize_def)

lemma record_call_lengths:
  "length (mSuccessfullCalls (record_call c k a)) = max (length (mSuccessfullCalls a)) (k + 1)"
  "length (mRateLimitedCalls (record_call c k a)) = max (length (mRateLimitedCalls a)) (k + 1)"
  by (auto simp: record_call_def Let_def length_resize)

lemma record_calls_lengths:
  "length (mRateLimitedCalls a) = length (mSuccessfullCalls a) \<Longrightarrow>
   length (mRateLimitedCalls (record_calls a es)) = length (mSuccessfullCalls (record_calls a es))"
  by (induction a es rule: record_calls.induct) (simp_all add: record_call_lengths)

lemma record_calls_grow:
  "length (mSuccessfullCalls a) \<le> length (mSuccessfullCalls (record_calls a es))
 \<and> length (mRateLimitedCalls a) \<le> length (mRateLimitedCalls (record_calls a es))"
proof (induction a es rule: record_calls.induct)
  case (1 a)
  then show ?case by simp
next
  case (2 a c k es)
  have "length (mSuccessfullCalls a) \<le> length (mSuccessfullCalls (record_call c k a))"
    "length (mRateLimitedCalls a) \<le> length (mRateLimitedCalls (record_call c k a))"
    by (simp_all add: record_call_lengths)
  then show ?case using "2.IH" by fastforce
qed

lemma record_calls_append: "record_calls a (es @ es') = record_calls (record_calls a es) es'"
  by (induction a es rule: record_calls.induct) simp_all

text \<open>
  Calls that run one after the other are such a sequence: the results are those of the
  limiter at the slices of the calls.
\<close>

lemma calls_record_calls:
  "calls p es = (snd (run (fst p) (map fst es)),
                 record_calls (snd p) (zip (fst (run (fst p) (map fst es))) (map snd es)))"
proof (induction p es rule: calls.induct)
  case (1 p)
  then show ?case by simp
next
  case (2 p t k es)
  then show ?case by (simp add: call_def split_beta)
qed

lemma printStat_denied_column:
  assumes "length (mRateLimitedCalls a) = length (mSuccessfullCalls a)"
  shows "map (fst \<circ> snd \<circ> snd) (printStat a) = map Some (mRateLimitedCalls a)"
proof -
  let ?n = "length (mRateLimitedCalls a)"
  have "map (fst \<circ> snd \<circ> snd) (printStat a)
      = map (\<lambda>i. if i < ?n then Some (mRateLimitedCalls a ! i) else None) [0..<?n]"
    using assms by (simp add: printStat_def printStat_row_def comp_def)
  also have "\<dots> = map (\<lambda>i. Some (mRateLimitedCalls a ! i)) [0..<?n]"
    by (rule map_cong) simp_all
  also have "\<dots> = map Some (map (\<lambda>i. mRateLimitedCalls a ! i) [0..<?n])"
    by (simp add: comp_def)
  also have "\<dots> = map Some (mRateLimitedCalls a)"
    by (simp only: map_nth)
  finally show ?thesis .
qed

text \<open>
  Claim C10. The critical section of a \<^verbatim>\<open>call\<close> with the bucket index
  \<open>time_index\<close> leaves each of the two deques with the length
  \<open>max n (time_index + 1)\<close>, where \<open>n\<close> is the length it had: a deque that is too
  short is resized to the bucket index plus one, and none is made shorter; this holds
  for the critical section alone, for the whole \<^verbatim>\<open>call\<close>, and for the step that
  follows any sequence \<open>es\<close> of critical sections on a new recorder. After any such
  sequence (any results, any bucket indices, in any order), the two deques have the same
  length; further ones (\<open>es'\<close>) never make either shorter; every read
  \<^verbatim>\<open>mRateLimitedCalls[i]\<close> that \<^verbatim>\<open>printStat\<close> performs while it iterates over
  \<^verbatim>\<open>mSuccessfullCalls\<close> is inside the deque, the column read being the whole deque;
  and the same equality of lengths holds after calls \<open>cs\<close> made one after the other on a
  limiter \<open>rl\<close>.
\<close>

theorem recorder_deques_same_length:
  "length (mRateLimitedCalls (record_calls API_ctor es))
     = length (mSuccessfullCalls (record_calls API_ctor es))
   \<and> length (mSuccessfullCalls (record_calls API_ctor es))
     \<le> length (mSuccessfullCalls (record_calls API_ctor (es @ es')))
   \<and> length (mRateLimitedCalls (record_calls API_ctor es))
     \<le> length (mRateLimitedCalls (record_calls API_ctor (es @ es')))
   \<and> map (fst \<circ> snd \<circ> snd) (printStat (record_calls API_ctor es))
     = map Some (mRateLimitedCalls (record_calls API_ctor es))
   \<and> length (mRateLimitedCalls (snd (calls (rl, API_ctor) cs)))
     = length (mSuccessfullCalls (snd (calls (rl, API_ctor) cs)))
   \<and> length (mSuccessfullCalls (record_call called time_index a))
     = max (length (mSuccessfullCalls a)) (time_index + 1)
   \<and> length (mRateLimitedCalls (record_call called time_index a))
     = max (length (mRateLimitedCalls a)) (time_index + 1)
   \<and> length (mSuccessfullCalls (snd (call t time_index (rl, a))))
     = max (length (mSuccessfullCalls a)) (time_index + 1)
   \<and> length (mRateLimitedCalls (snd (call t time_index (rl, a))))
     = max (length (mRateLimitedCalls a)) (time_index + 1)
   \<and> length (mSuccessfullCalls (record_calls API_ctor (es @ [(called, time_index)])))
     = max (length (mSuccessfullCalls (record_calls API_ctor es))) (time_index + 1)
   \<and> length (mRateLimitedCalls (record_calls API_ctor (es @ [(called, time_index)])))
     = max (length (mSuccessfullCalls (record_calls API_ctor es))) (time_index + 1)"
proof -
  have eq: "length (mRateLimitedCalls (record_calls API_ctor es))
     = length (mSuccessfullCalls (record_calls API_ctor es))" for es
    by (rule record_calls_lengths) (simp add: API_ctor_def)
  have seq: "length (mRateLimitedCalls (snd (calls (rl, API_ctor) cs)))
     = length (mSuccessfullCalls (snd (calls (rl, API_ctor) cs)))"
    by (simp add: calls_record_calls eq)
  have grow: "length (mSuccessfullCalls (record_calls API_ctor es))
       \<le> length (mSuccessfullCalls (record_calls API_ctor (es @ es')))"
    "length (mRateLimitedCalls (record_calls API_ctor es))
       \<le> length (mRateLimitedCalls (record_calls API_ctor (es @ es')))"
    using record_calls_grow [of "record_calls API_ctor es" es']
    by (simp_all add: record_calls_append)
  have col: "map (fst \<circ> snd \<circ> snd) (printStat (record_calls API_ctor es))
     = map Some (mRateLimitedCalls (record_calls API_ctor es))"
    by (rule printStat_denied_column [OF eq])
  have step: "length (mSuccessfullCalls (record_call called time_index a))
       = max (length (mSuccessfullCalls a)) (time_index + 1)"
    "length (mRateLimitedCalls (record_call called time_index a))
       = max (length (mRateLimitedCalls a)) (time_index + 1)" for called a
    by (rule record_call_lengths)+
  have whole: "length (mSuccessfullCalls (snd (call t time_index (rl, a))))
       = max (length (mSuccessfullCalls a)) (time_index + 1)"
    "length (mRateLimitedCalls (snd (call t time_index (rl, a))))
       = max (length (mRateLimitedCalls a)) (time_index + 1)"
    by (simp_all add: call_def split_beta step)
  have after: "length (mSuccessfullCalls (record_calls API_ctor (es @ [(called, time_index)])))
       = max (length (mSuccessfullCalls (record_calls API_ctor es))) (time_index + 1)"
    "length (mRateLimitedCalls (record_calls API_ctor (es @ [(called, time_index)])))
       = max (length (mSuccessfullCalls (record_calls API_ctor es))) (time_index + 1)"
    by (simp_all add: record_calls_append step eq)
  show ?thesis
    by (intro conjI) (rule eq grow col seq step whole after)+
qed

theorem recorder_deques_same_length_witness:
  "length (mRateLimitedCalls (record_calls API_ctor [(True, 3), (False, 0)]))
     = length (mSuccessfullCalls (record_calls API_ctor [(True, 3), (False, 0)]))
   \<and> length (mSuccessfullCalls (record_call True 3 API_ctor)) = 4
   \<and> length (mRateLimitedCalls (record_call True 3 API_ctor)) = 4"
proof -
  note r = recorder_deques_same_length
    [of "[(True, 3), (False, 0)]" "[]" "RateLimit_ctor 0 1" "[]" True 3 API_ctor 0]
  have a: "length (mRateLimitedCalls (record_calls API_ctor [(True, 3), (False, 0)]))
     = length (mSuccessfullCalls (record_calls API_ctor [(True, 3), (False, 0)]))"
    using r by (rule conjunct1)
  have b: "length (mSuccessfullCalls (record_call True 3 API_ctor))
     = max (length (mSuccessfullCalls API_ctor)) (3 + 1)"
    "length (mRateLimitedCalls (record_call True 3 API_ctor))
     = max (length (mRateLimitedCalls API_ctor)) (3 + 1)"
    using r by blast+
  have c: "max (length (mSuccessfullCalls API_ctor)) (3 + 1) = 4"
    "max (length (mRateLimitedCalls API_ctor)) (3 + 1) = 4"
    by (simp_all add: API_ctor_def)
  show ?thesis using a b c by (simp only:) 
qed

subsection \<open>The last column of the report\<close>

lemma sint_small:
  fixes w :: "64 word"
  assumes "unat w < 2 ^ 63"
  shows "sint w = int (unat w)"
proof -
  have "nat (uint w) < 2 ^ 63" using assms by (simp only: unat_eq_nat_uint)
  then have b: "uint w < 2 ^ 63" by (simp only: nat_less_iff uint_ge_0) simp
  have c: "- (2 ^ 63) \<le> uint w"
  proof -
    have "- (2 ^ 63) \<le> (0::int)" by simp
    then show ?thesis using uint_ge_0 [of w] by (rule order_trans)
  qed
  have "sint w = signed_take_bit 63 (uint w)" by (simp add: sint_uint)
  also have "\<dots> = uint w"
    by (rule signed_take_bit_int_eq_self [OF c b])
  finally show ?thesis by simp
qed

text \<open>
  From the row 9 on, the last column is the sum of the successes of the row's bucket and
  of the nine buckets before it.
\<close>

lemma rolling_sum_from_ninth_row:
  assumes "9 \<le> i" "i < length (mSuccessfullCalls a)" "length (mSuccessfullCalls a) < 2 ^ 63"
  shows "rps_for_last_second a (of_nat i)
     = Some (sum_list (take 10 (drop (i - 9) (mSuccessfullCalls a))))"
proof -
  let ?w = "of_nat i :: 64 word"
  have i: "i < 2 ^ 63" using assms by simp
  then have "i < 2 ^ 64" by simp
  then have u: "unat ?w = i" by (simp add: unat_of_nat)
  have "(9 :: 64 word) \<le> ?w" using assms(1) u by (simp add: word_le_nat_alt)
  then have u9: "unat (?w - 9) = i - 9" using u by (simp add: unat_sub)
  have r: "rolling_first ?w = ?w - 9" by (simp add: rolling_first_def max_def)
  have s1: "sint ?w = int i" using sint_small [of ?w] u i by simp
  have s9: "sint (?w - 9) = int (i - 9)" using sint_small [of "?w - 9"] u9 i by simp
  have n: "nat (int i - 9) = i - 9" by simp
  show ?thesis
    using assms(1,2) by (simp add: rps_for_last_second_def accumulate_range_def r s1 s9 n)
qed

text \<open>
  Claim C8, at the row \<open>i = 0\<close> of a recorder with one bucket that holds 5 successes:
  the offset \<^verbatim>\<open>std::max<size_t>(0, i - 9)\<close> is \<open>2 ^ 64 - 9\<close> and not 0, because the
  subtraction is unsigned, so the first iterator is 9 places before \<^verbatim>\<open>begin()\<close> and
  the range summed is not the range of the indices 0 to 0: the last column is not
  defined, where the claim gives the sum 5.
\<close>

theorem rolling_sum_first_rows_out_of_range:
  "rolling_first 0 = 18446744073709551607
   \<and> sint (rolling_first 0) = - 9
   \<and> rps_for_last_second \<lparr>mSuccessfullCalls = [5], mRateLimitedCalls = [0]\<rparr> 0 = None"
  by (simp add: rolling_first_def rps_for_last_second_def accumulate_range_def)

end
